theory Spec2Isabelle
  imports Main "HOL-Library.Word"
begin

section \<open>The QuestTracker contract (src/contracts/QuestTracker.sol)\<close>

text \<open>
  The contract is compiled with Solidity 0.8: \<open>uint256\<close> arithmetic is checked and
  reverts with \<open>Panic(0x11)\<close> on overflow or underflow, an out-of-range index into
  a memory array reverts with \<open>Panic(0x32)\<close>, and a failed \<open>require\<close> reverts
  with its message. A revert undoes every effect of the call, so each external function
  is a function from the storage before the call to either an error or the storage after
  it. Mappings are total: an absent key reads as the zero value of its type.
\<close>

type_synonym uint256 = "256 word"
type_synonym address = "160 word"

record Quest =
  id_q :: uint256
  title :: string
  description :: string
  reward :: uint256
  requirements :: "string list"
  estimatedTimeMinutes :: uint256
  isActive :: bool
  createdAt :: uint256
  endDate :: uint256

record UserProgress =
  completed :: bool
  completedAt :: uint256

record DailyClaim =
  lastClaimTime :: uint256
  claimed :: bool

record UserDetails =
  completedQuestIds :: "uint256 list"
  totalQuestsCompleted_d :: uint256
  dailyClaimInfo :: DailyClaim
  canClaimDaily :: bool
  timeUntilNextClaim :: uint256

datatype event =
    QuestCreated uint256 string uint256 uint256
  | QuestCompleted address uint256
  | DailyClaimed address uint256

text \<open>The storage of the contract, its immutables, and the log of emitted events.\<close>

record contract =
  owner :: address
  backendWallet :: address
  questCounter :: uint256
  quests :: "uint256 \<Rightarrow> Quest"
  userQuests :: "address \<Rightarrow> uint256 \<Rightarrow> UserProgress"
  totalQuestsCompleted :: "address \<Rightarrow> uint256"
  dailyClaims :: "address \<Rightarrow> DailyClaim"
  dailyRewardAmount :: uint256
  claimCooldown :: uint256
  events :: "event list"

text \<open>What a call sees of its transaction: \<open>msg.sender\<close> and \<open>block.timestamp\<close>.\<close>

record env =
  msg_sender :: address
  block_timestamp :: uint256

text \<open>
  One constructor per \<open>require\<close> message of the contract, in the order of the source,
  and the two panics of checked code.
\<close>

datatype error =
    Only_owner                    \<comment> \<open>"Only owner can call this function"\<close>
  | Only_backend                  \<comment> \<open>"Only backend wallet can call this function"\<close>
  | Quest_does_not_exist          \<comment> \<open>"Quest does not exist"\<close>
  | Quest_is_not_active           \<comment> \<open>"Quest is not active"\<close>
  | Quest_has_expired             \<comment> \<open>"Quest has expired"\<close>
  | Invalid_backend_wallet        \<comment> \<open>"Invalid backend wallet address"\<close>
  | Daily_reward_not_positive     \<comment> \<open>"Daily reward must be greater than 0"\<close>
  | Cooldown_below_one_hour       \<comment> \<open>"Cooldown must be at least 1 hour"\<close>
  | End_date_not_in_future        \<comment> \<open>"End date must be in the future"\<close>
  | No_requirement                \<comment> \<open>"Quest must have at least one requirement"\<close>
  | Only_owner_or_backend_complete \<comment> \<open>"Only owner or backend can complete quests"\<close>
  | Invalid_user_address          \<comment> \<open>"Invalid user address"\<close>
  | Quest_already_completed       \<comment> \<open>"Quest already completed"\<close>
  | Only_owner_or_backend_daily   \<comment> \<open>"Only owner or backend can set daily claimed"\<close>
  | Daily_claim_cooldown_not_met  \<comment> \<open>"Daily claim cooldown not met"\<close>
  | Panic_arithmetic              \<comment> \<open>Panic(0x11)\<close>
  | Panic_index                   \<comment> \<open>Panic(0x32)\<close>

text \<open>The failure kinds of the specification, and the kind of each revert of the code.\<close>

datatype failure_kind =
    Unauthorized | NotFound | QuestUnavailable | InvalidUser | InvalidQuest
  | InvalidSchedule | AlreadyCompleted | CooldownActive | InvalidConfiguration | Panic

fun kind :: "error \<Rightarrow> failure_kind" where
  "kind Only_owner = Unauthorized"
| "kind Only_backend = Unauthorized"
| "kind Quest_does_not_exist = NotFound"
| "kind Quest_is_not_active = QuestUnavailable"
| "kind Quest_has_expired = QuestUnavailable"
| "kind Invalid_backend_wallet = InvalidConfiguration"
| "kind Daily_reward_not_positive = InvalidConfiguration"
| "kind Cooldown_below_one_hour = InvalidConfiguration"
| "kind End_date_not_in_future = InvalidSchedule"
| "kind No_requirement = InvalidQuest"
| "kind Only_owner_or_backend_complete = Unauthorized"
| "kind Invalid_user_address = InvalidUser"
| "kind Quest_already_completed = AlreadyCompleted"
| "kind Only_owner_or_backend_daily = Unauthorized"
| "kind Daily_claim_cooldown_not_met = CooldownActive"
| "kind Panic_arithmetic = Panic"
| "kind Panic_index = Panic"

subsection \<open>Checked arithmetic\<close>

definition checked_add :: "uint256 \<Rightarrow> uint256 \<Rightarrow> error + uint256" where
  "checked_add a b = (if unat a + unat b < 2 ^ 256 then Inr (a + b) else Inl Panic_arithmetic)"

definition checked_sub :: "uint256 \<Rightarrow> uint256 \<Rightarrow> error + uint256" where
  "checked_sub a b = (if b \<le> a then Inr (a - b) else Inl Panic_arithmetic)"

subsection \<open>Constructor\<close>

definition zero_Quest :: Quest where
  "zero_Quest = \<lparr>id_q = 0, title = [], description = [], reward = 0, requirements = [],
     estimatedTimeMinutes = 0, isActive = False, createdAt = 0, endDate = 0\<rparr>"

definition zero_UserProgress :: UserProgress where
  "zero_UserProgress = \<lparr>completed = False, completedAt = 0\<rparr>"

definition zero_DailyClaim :: DailyClaim where
  "zero_DailyClaim = \<lparr>lastClaimTime = 0, claimed = False\<rparr>"

definition constructor :: "env \<Rightarrow> address \<Rightarrow> uint256 \<Rightarrow> uint256 \<Rightarrow> error + contract" where
  "constructor e backendWallet' dailyRewardAmount' claimCooldown' =
     (if \<not> backendWallet' \<noteq> 0 then Inl Invalid_backend_wallet
      else if \<not> 0 < dailyRewardAmount' then Inl Daily_reward_not_positive
      else if \<not> 3600 \<le> claimCooldown' then Inl Cooldown_below_one_hour
      else Inr \<lparr>owner = msg_sender e,
                backendWallet = backendWallet',
                questCounter = 0,
                quests = (\<lambda>_. zero_Quest),
                userQuests = (\<lambda>_ _. zero_UserProgress),
                totalQuestsCompleted = (\<lambda>_. 0),
                dailyClaims = (\<lambda>_. zero_DailyClaim),
                dailyRewardAmount = dailyRewardAmount',
                claimCooldown = claimCooldown',
                events = []\<rparr>)"

subsection \<open>createQuest\<close>

definition createQuest ::
  "contract \<Rightarrow> env \<Rightarrow> string \<Rightarrow> string \<Rightarrow> uint256 \<Rightarrow> string list \<Rightarrow> uint256 \<Rightarrow> uint256
     \<Rightarrow> error + contract" where
  "createQuest s e title' description' reward' requirements' estimatedTimeMinutes' endDate' =
     (if \<not> msg_sender e = owner s then Inl Only_owner
      else if \<not> block_timestamp e < endDate' then Inl End_date_not_in_future
      else if \<not> 0 < length requirements' then Inl No_requirement
      else case checked_add (questCounter s) 1 of
        Inl p \<Rightarrow> Inl p
      | Inr c \<Rightarrow>
          Inr (s\<lparr>questCounter := c,
                 quests := (quests s)(c :=
                   \<lparr>id_q = c, title = title', description = description', reward = reward',
                    requirements = requirements',
                    estimatedTimeMinutes = estimatedTimeMinutes',
                    isActive = True, createdAt = block_timestamp e, endDate = endDate'\<rparr>),
                 events := events s @ [QuestCreated c title' reward' endDate']\<rparr>))"

subsection \<open>completeQuestForUser\<close>

text \<open>
  The modifiers \<open>questExists\<close> and \<open>questIsActive\<close> run before the body, so their
  checks come before the check of the caller.
\<close>

definition completeQuestForUser :: "contract \<Rightarrow> env \<Rightarrow> address \<Rightarrow> uint256 \<Rightarrow> error + contract" where
  "completeQuestForUser s e user questId =
     (if \<not> (0 < questId \<and> questId \<le> questCounter s) then Inl Quest_does_not_exist
      else if \<not> isActive (quests s questId) then Inl Quest_is_not_active
      else if \<not> block_timestamp e \<le> endDate (quests s questId) then Inl Quest_has_expired
      else if \<not> (msg_sender e = owner s \<or> msg_sender e = backendWallet s)
        then Inl Only_owner_or_backend_complete
      else if \<not> user \<noteq> 0 then Inl Invalid_user_address
      else if \<not> \<not> completed (userQuests s user questId) then Inl Quest_already_completed
      else case checked_add (totalQuestsCompleted s user) 1 of
        Inl p \<Rightarrow> Inl p
      | Inr n \<Rightarrow>
          Inr (s\<lparr>userQuests := (userQuests s)(user := (userQuests s user)(questId :=
                   \<lparr>completed = True, completedAt = block_timestamp e\<rparr>)),
                 totalQuestsCompleted := (totalQuestsCompleted s)(user := n),
                 events := events s @ [QuestCompleted user questId]\<rparr>))"

subsection \<open>setDailyClaimed\<close>

definition setDailyClaimed :: "contract \<Rightarrow> env \<Rightarrow> address \<Rightarrow> error + contract" where
  "setDailyClaimed s e user =
     (if \<not> (msg_sender e = owner s \<or> msg_sender e = backendWallet s)
        then Inl Only_owner_or_backend_daily
      else if \<not> user \<noteq> 0 then Inl Invalid_user_address
      else let userClaim = dailyClaims s user; currentTime = block_timestamp e in
        case checked_add (lastClaimTime userClaim) (claimCooldown s) of
          Inl p \<Rightarrow> Inl p
        | Inr due \<Rightarrow>
            if \<not> due \<le> currentTime then Inl Daily_claim_cooldown_not_met
            else Inr (s\<lparr>dailyClaims := (dailyClaims s)(user :=
                          userClaim\<lparr>lastClaimTime := currentTime, claimed := True\<rparr>),
                        events := events s @ [DailyClaimed user (dailyRewardAmount s)]\<rparr>))"

subsection \<open>getUserDetails\<close>

text \<open>
  The \<open>for\<close> loop of \<open>getUserDetails\<close>, entered with \<open>i\<close>, the memory array and
  \<open>completedIndex\<close>. The write \<open>completedQuestIds[completedIndex] = i\<close> panics when
  the index is not below the length of the array, and both increments are checked.
\<close>

function getUserDetails_loop ::
  "contract \<Rightarrow> address \<Rightarrow> uint256 \<Rightarrow> uint256 list \<Rightarrow> uint256 \<Rightarrow> error + uint256 list" where
  "getUserDetails_loop s user i arr completedIndex =
     (if i \<le> questCounter s then
        (if completed (userQuests s user i) then
           (if \<not> unat completedIndex < length arr then Inl Panic_index
            else if \<not> unat completedIndex + 1 < 2 ^ 256 then Inl Panic_arithmetic
            else if \<not> unat i + 1 < 2 ^ 256 then Inl Panic_arithmetic
            else getUserDetails_loop s user (i + 1) (arr[unat completedIndex := i])
                   (completedIndex + 1))
         else if \<not> unat i + 1 < 2 ^ 256 then Inl Panic_arithmetic
         else getUserDetails_loop s user (i + 1) arr completedIndex)
      else Inr arr)"
  by pat_completeness auto
termination
proof (relation "measure (\<lambda>(s, user, i, arr, completedIndex). Suc (unat (questCounter s)) - unat i)")
  show "wf (measure (\<lambda>(s, user, i, arr, completedIndex). Suc (unat (questCounter s)) - unat i))"
    by simp
next
  fix s :: contract and user :: address and i :: uint256 and arr :: "uint256 list"
    and completedIndex :: uint256
  assume le: "i \<le> questCounter s" and ov: "\<not> \<not> unat i + 1 < 2 ^ 256"
  have "unat (i + 1) = unat i + 1"
    using ov by (simp add: unat_word_ariths)
  moreover have "unat i \<le> unat (questCounter s)"
    using le by (simp add: word_le_nat_alt)
  ultimately
  show "((s, user, i + 1, arr[unat completedIndex := i], completedIndex + 1),
          (s, user, i, arr, completedIndex))
        \<in> measure (\<lambda>(s, user, i, arr, completedIndex). Suc (unat (questCounter s)) - unat i)"
    and "((s, user, i + 1, arr, completedIndex), (s, user, i, arr, completedIndex))
        \<in> measure (\<lambda>(s, user, i, arr, completedIndex). Suc (unat (questCounter s)) - unat i)"
    by simp_all
qed

declare getUserDetails_loop.simps [simp del]

definition getUserDetails :: "contract \<Rightarrow> env \<Rightarrow> address \<Rightarrow> error + UserDetails" where
  "getUserDetails s e user =
     (case getUserDetails_loop s user 1
             (replicate (unat (totalQuestsCompleted s user)) 0) 0 of
        Inl p \<Rightarrow> Inl p
      | Inr completedQuestIds' \<Rightarrow>
          let dailyClaimInfo' = dailyClaims s user; currentTime = block_timestamp e in
          if lastClaimTime dailyClaimInfo' = 0 then
            Inr \<lparr>completedQuestIds = completedQuestIds',
                 totalQuestsCompleted_d = totalQuestsCompleted s user,
                 dailyClaimInfo = dailyClaimInfo',
                 canClaimDaily = True, timeUntilNextClaim = 0\<rparr>
          else case checked_sub currentTime (lastClaimTime dailyClaimInfo') of
            Inl p \<Rightarrow> Inl p
          | Inr timeSinceLastClaim \<Rightarrow>
              if claimCooldown s \<le> timeSinceLastClaim then
                Inr \<lparr>completedQuestIds = completedQuestIds',
                     totalQuestsCompleted_d = totalQuestsCompleted s user,
                     dailyClaimInfo = dailyClaimInfo',
                     canClaimDaily = True, timeUntilNextClaim = 0\<rparr>
              else case checked_sub (claimCooldown s) timeSinceLastClaim of
                Inl p \<Rightarrow> Inl p
              | Inr remaining \<Rightarrow>
                  Inr \<lparr>completedQuestIds = completedQuestIds',
                       totalQuestsCompleted_d = totalQuestsCompleted s user,
                       dailyClaimInfo = dailyClaimInfo',
                       canClaimDaily = False, timeUntilNextClaim = remaining\<rparr>)"

text \<open>
  What the loop is meant to compute: the quest ids from \<open>n\<close> up to the counter, in
  ascending order, that the user has completed; from 1, the whole scan.
\<close>

definition ids_from :: "contract \<Rightarrow> address \<Rightarrow> nat \<Rightarrow> uint256 list" where
  "ids_from s user n =
     filter (\<lambda>q. completed (userQuests s user q)) (map of_nat [n..<Suc (unat (questCounter s))])"

definition completed_ids :: "contract \<Rightarrow> address \<Rightarrow> uint256 list" where
  "completed_ids s user = ids_from s user 1"

subsection \<open>Transactions\<close>

text \<open>
  The three state-changing entry points as calls. None of them declares a
  \<open>returns\<close> clause, so the values returned to the caller are the empty list. A
  transaction that reverts leaves the storage and the log as they were.
\<close>

datatype call =
    CreateQuest string string uint256 "string list" uint256 uint256
  | CompleteQuestForUser address uint256
  | SetDailyClaimed address

fun dispatch :: "contract \<Rightarrow> env \<Rightarrow> call \<Rightarrow> error + contract" where
  "dispatch s e (CreateQuest t d r rq m ed) = createQuest s e t d r rq m ed"
| "dispatch s e (CompleteQuestForUser u q) = completeQuestForUser s e u q"
| "dispatch s e (SetDailyClaimed u) = setDailyClaimed s e u"

definition returned :: "contract \<Rightarrow> env \<Rightarrow> call \<Rightarrow> error + uint256 list" where
  "returned s e c = (case dispatch s e c of Inl p \<Rightarrow> Inl p | Inr _ \<Rightarrow> Inr [])"

definition transact :: "contract \<Rightarrow> env \<times> call \<Rightarrow> contract" where
  "transact s t = (case dispatch s (fst t) (snd t) of Inl _ \<Rightarrow> s | Inr s' \<Rightarrow> s')"

definition run :: "contract \<Rightarrow> (env \<times> call) list \<Rightarrow> contract" where
  "run s ts = foldl transact s ts"

text \<open>Block timestamps never decrease along a chain.\<close>

fun chronological :: "uint256 \<Rightarrow> (env \<times> call) list \<Rightarrow> bool" where
  "chronological t0 [] = True"
| "chronological t0 (t # ts) =
     (t0 \<le> block_timestamp (fst t) \<and> chronological (block_timestamp (fst t)) ts)"

fun last_time :: "uint256 \<Rightarrow> (env \<times> call) list \<Rightarrow> uint256" where
  "last_time t0 [] = t0"
| "last_time t0 (t # ts) = last_time (block_timestamp (fst t)) ts"

text \<open>The quest ids of the \<open>QuestCreated\<close> events of a log, in the order of emission.\<close>

fun created_ids :: "event list \<Rightarrow> uint256 list" where
  "created_ids [] = []"
| "created_ids (QuestCreated questId t r ed # es) = questId # created_ids es"
| "created_ids (QuestCompleted u questId # es) = created_ids es"
| "created_ids (DailyClaimed u a # es) = created_ids es"

text \<open>Whether a call names the given user.\<close>

fun concerns :: "address \<Rightarrow> call \<Rightarrow> bool" where
  "concerns user (CreateQuest t d r rq m ed) = False"
| "concerns user (CompleteQuestForUser u q) = (u = user)"
| "concerns user (SetDailyClaimed u) = (u = user)"

subsection \<open>Invariants of the storage\<close>

text \<open>
  Only quests that exist are marked completed, and the counter of a user is the number of
  quests marked completed for that user; no stored claim time lies after the given time.
\<close>

definition ledger_ok :: "contract \<Rightarrow> bool" where
  "ledger_ok s \<longleftrightarrow>
     (\<forall>u q. completed (userQuests s u q) \<longrightarrow> 0 < q \<and> q \<le> questCounter s) \<and>
     (\<forall>u. unat (totalQuestsCompleted s u) = card {q. completed (userQuests s u q)})"

definition claims_before :: "uint256 \<Rightarrow> contract \<Rightarrow> bool" where
  "claims_before t s \<longleftrightarrow> (\<forall>u. lastClaimTime (dailyClaims s u) \<le> t)"

subsection \<open>A deployment used in the examples\<close>

text \<open>
  The owner is address 1, the backend wallet address 2, address 9 holds no role; the
  daily reward is 10 and the cooldown one day. \<open>with_quest\<close> is the storage after the
  owner created one quest at time 1000 that ends at time 2000.
\<close>

definition owner_at :: "uint256 \<Rightarrow> env" where
  "owner_at t = \<lparr>msg_sender = 1, block_timestamp = t\<rparr>"

definition backend_at :: "uint256 \<Rightarrow> env" where
  "backend_at t = \<lparr>msg_sender = 2, block_timestamp = t\<rparr>"

definition stranger_at :: "uint256 \<Rightarrow> env" where
  "stranger_at t = \<lparr>msg_sender = 9, block_timestamp = t\<rparr>"

definition fresh :: contract where
  "fresh = \<lparr>owner = 1, backendWallet = 2, questCounter = 0,
     quests = (\<lambda>_. zero_Quest), userQuests = (\<lambda>_ _. zero_UserProgress),
     totalQuestsCompleted = (\<lambda>_. 0), dailyClaims = (\<lambda>_. zero_DailyClaim),
     dailyRewardAmount = 10, claimCooldown = 86400, events = []\<rparr>"

definition quest1 :: call where
  "quest1 = CreateQuest ''Hold'' ''Hold one token'' 50 [''hold''] 5 2000"

definition with_quest :: contract where
  "with_quest = fresh\<lparr>questCounter := 1,
     quests := (\<lambda>_. zero_Quest)(1 := \<lparr>id_q = 1, title = ''Hold'', description = ''Hold one token'',
       reward = 50, requirements = [''hold''], estimatedTimeMinutes = 5, isActive = True,
       createdAt = 1000, endDate = 2000\<rparr>),
     events := [QuestCreated 1 ''Hold'' 50 2000]\<rparr>"

text \<open>\<open>quest_done\<close>: after the backend completed that quest for user 7 at time 1500.\<close>

definition quest_done :: contract where
  "quest_done = with_quest\<lparr>
     userQuests := (\<lambda>_ _. zero_UserProgress)(7 := (\<lambda>_. zero_UserProgress)(1 :=
       \<lparr>completed = True, completedAt = 1500\<rparr>)),
     totalQuestsCompleted := (\<lambda>_. 0)(7 := 1),
     events := [QuestCreated 1 ''Hold'' 50 2000, QuestCompleted 7 1]\<rparr>"

text \<open>
  \<open>scenario\<close>: two quests created, both completed for user 7 (the second one first),
  then a daily claim for user 7 at time 90000.
\<close>

definition scenario :: "(env \<times> call) list" where
  "scenario =
     [(owner_at 1000, quest1), (owner_at 1100, quest1),
      (backend_at 1500, CompleteQuestForUser 7 2),
      (backend_at 1600, CompleteQuestForUser 7 1),
      (backend_at 90000, SetDailyClaimed 7)]"

section \<open>Basic facts about the operations\<close>

lemma unat_plus1: "unat (a :: uint256) + 1 < 2 ^ 256 \<Longrightarrow> unat (a + 1) = unat a + 1"
  by (simp add: unat_word_ariths)

lemma unat_checked_sum:
  "unat (a :: uint256) + unat b < 2 ^ 256 \<Longrightarrow> unat (a + b) = unat a + unat b"
  by (simp add: unat_word_ariths)

lemma createQuest_Inr:
  "createQuest s e t d r rq m ed = Inr s' \<Longrightarrow>
     msg_sender e = owner s \<and> block_timestamp e < ed \<and> rq \<noteq> [] \<and>
     unat (questCounter s) + 1 < 2 ^ 256 \<and>
     s' = s\<lparr>questCounter := questCounter s + 1,
            quests := (quests s)(questCounter s + 1 :=
              \<lparr>id_q = questCounter s + 1, title = t, description = d, reward = r,
               requirements = rq, estimatedTimeMinutes = m, isActive = True,
               createdAt = block_timestamp e, endDate = ed\<rparr>),
            events := events s @ [QuestCreated (questCounter s + 1) t r ed]\<rparr>"
  by (auto simp: createQuest_def checked_add_def split: if_splits)

lemma completeQuestForUser_Inr:
  "completeQuestForUser s e u q = Inr s' \<Longrightarrow>
     0 < q \<and> q \<le> questCounter s \<and> isActive (quests s q) \<and>
     block_timestamp e \<le> endDate (quests s q) \<and>
     (msg_sender e = owner s \<or> msg_sender e = backendWallet s) \<and> u \<noteq> 0 \<and>
     \<not> completed (userQuests s u q) \<and>
     unat (totalQuestsCompleted s u) + 1 < 2 ^ 256 \<and>
     s' = s\<lparr>userQuests := (userQuests s)(u := (userQuests s u)(q :=
               \<lparr>completed = True, completedAt = block_timestamp e\<rparr>)),
            totalQuestsCompleted := (totalQuestsCompleted s)(u := totalQuestsCompleted s u + 1),
            events := events s @ [QuestCompleted u q]\<rparr>"
  by (auto simp: completeQuestForUser_def checked_add_def split: if_splits)

lemma setDailyClaimed_Inr:
  "setDailyClaimed s e u = Inr s' \<Longrightarrow>
     (msg_sender e = owner s \<or> msg_sender e = backendWallet s) \<and> u \<noteq> 0 \<and>
     unat (lastClaimTime (dailyClaims s u)) + unat (claimCooldown s) < 2 ^ 256 \<and>
     lastClaimTime (dailyClaims s u) + claimCooldown s \<le> block_timestamp e \<and>
     s' = s\<lparr>dailyClaims := (dailyClaims s)(u :=
               (dailyClaims s u)\<lparr>lastClaimTime := block_timestamp e, claimed := True\<rparr>),
            events := events s @ [DailyClaimed u (dailyRewardAmount s)]\<rparr>"
  by (auto simp: setDailyClaimed_def checked_add_def Let_def split: if_splits)

lemma counter_step: "unat (c :: uint256) + 1 < 2 ^ 256 \<Longrightarrow> q \<le> c \<Longrightarrow> q \<le> c + 1 \<and> q \<noteq> c + 1"
  by (auto simp: word_le_nat_alt unat_word_ariths)

lemma dispatch_frame:
  "dispatch s e c = Inr s' \<Longrightarrow>
     owner s' = owner s \<and> backendWallet s' = backendWallet s \<and>
     claimCooldown s' = claimCooldown s \<and> dailyRewardAmount s' = dailyRewardAmount s"
  by (cases c) (auto dest!: createQuest_Inr completeQuestForUser_Inr setDailyClaimed_Inr)

lemma dispatch_quest_kept:
  "dispatch s e c = Inr s' \<Longrightarrow> q \<le> questCounter s \<Longrightarrow>
     q \<le> questCounter s' \<and> quests s' q = quests s q"
  by (cases c)
     (auto dest!: createQuest_Inr completeQuestForUser_Inr setDailyClaimed_Inr
           dest: counter_step)

lemma dispatch_completed_kept:
  "dispatch s e c = Inr s' \<Longrightarrow> completed (userQuests s u q) \<Longrightarrow>
     userQuests s' u q = userQuests s u q"
  by (cases c)
     (auto dest!: createQuest_Inr completeQuestForUser_Inr setDailyClaimed_Inr)

lemma transact_cases:
  "transact s t = s \<or> (\<exists>s'. dispatch s (fst t) (snd t) = Inr s' \<and> transact s t = s')"
  by (auto simp: transact_def split: sum.splits)

lemma run_Nil [simp]: "run s [] = s"
  by (simp add: run_def)

lemma run_Cons [simp]: "run s (t # ts) = run (transact s t) ts"
  by (simp add: run_def)

lemma transact_frame:
  "owner (transact s t) = owner s \<and> backendWallet (transact s t) = backendWallet s \<and>
   claimCooldown (transact s t) = claimCooldown s \<and>
   dailyRewardAmount (transact s t) = dailyRewardAmount s"
  using transact_cases [of s t] dispatch_frame [of s "fst t" "snd t"] by auto

lemma run_frame:
  "owner (run s ts) = owner s \<and> backendWallet (run s ts) = backendWallet s \<and>
   claimCooldown (run s ts) = claimCooldown s \<and>
   dailyRewardAmount (run s ts) = dailyRewardAmount s"
  by (induction ts arbitrary: s) (simp_all add: transact_frame)

lemma transact_quest_kept:
  "q \<le> questCounter s \<Longrightarrow>
     q \<le> questCounter (transact s t) \<and> quests (transact s t) q = quests s q"
  using transact_cases [of s t] dispatch_quest_kept [of s "fst t" "snd t" _ q] by auto

lemma run_quest_kept:
  "q \<le> questCounter s \<Longrightarrow> q \<le> questCounter (run s ts) \<and> quests (run s ts) q = quests s q"
proof (induction ts arbitrary: s)
  case Nil
  then show ?case by simp
next
  case (Cons t ts)
  from Cons.prems have step: "q \<le> questCounter (transact s t)" "quests (transact s t) q = quests s q"
    using transact_quest_kept [of q s t] by simp_all
  from Cons.IH [OF step(1)] step(2) show ?case by simp
qed

lemma transact_completed_kept:
  "completed (userQuests s u q) \<Longrightarrow> userQuests (transact s t) u q = userQuests s u q"
  using transact_cases [of s t] dispatch_completed_kept [of s "fst t" "snd t" _ u q] by auto

lemma run_completed_kept:
  "completed (userQuests s u q) \<Longrightarrow> userQuests (run s ts) u q = userQuests s u q"
proof (induction ts arbitrary: s)
  case Nil
  then show ?case by simp
next
  case (Cons t ts)
  have step: "userQuests (transact s t) u q = userQuests s u q"
    using Cons.prems by (rule transact_completed_kept)
  with Cons.prems have "completed (userQuests (transact s t) u q)" by simp
  from Cons.IH [OF this] step show ?case by simp
qed

lemmas example_defs = owner_at_def backend_at_def stranger_at_def fresh_def quest1_def
  with_quest_def zero_Quest_def zero_UserProgress_def zero_DailyClaim_def

lemma constructor_fresh: "constructor (owner_at 1000) 2 10 86400 = Inr fresh"
  by (simp add: constructor_def example_defs)

lemma not_max_iff: "unat (a :: uint256) + 1 < 2 ^ 256 \<longleftrightarrow> a \<noteq> - 1"
proof -
  have "unat a < 2 ^ 256" using unsigned_less [of a] by simp
  moreover have "a = - 1 \<longleftrightarrow> unat a = unat (- 1 :: uint256)"
    by (simp only: word_unat_eq_iff)
  moreover have "unat (- 1 :: uint256) = 2 ^ 256 - 1"
    by (simp add: unsigned_minus_1_eq_mask mask_eq_exp_minus_1)
  ultimately show ?thesis by auto
qed

section \<open>Expiry of quests\<close>

text \<open>
  Claim C7. For an existing quest and a time strictly after its \<open>endDate\<close>,
  \<open>completeQuestForUser\<close> fails with a \<open>QuestUnavailable\<close> error, whoever calls
  and for whichever user: with "Quest has expired" when the quest is still active. At a time
  equal to \<open>endDate\<close> the expiry check does not reject the call, and the call succeeds
  when the other checks pass.
\<close>

theorem C7_expiry:
  "(0 < q \<and> q \<le> questCounter s \<and> endDate (quests s q) < block_timestamp e \<longrightarrow>
      completeQuestForUser s e u q =
        Inl (if isActive (quests s q) then Quest_has_expired else Quest_is_not_active) \<and>
      kind (if isActive (quests s q) then Quest_has_expired else Quest_is_not_active)
        = QuestUnavailable) \<and>
   (block_timestamp e = endDate (quests s q) \<longrightarrow>
      completeQuestForUser s e u q \<noteq> Inl Quest_has_expired) \<and>
   (0 < q \<and> q \<le> questCounter s \<and> isActive (quests s q) \<and>
    block_timestamp e = endDate (quests s q) \<and>
    (msg_sender e = owner s \<or> msg_sender e = backendWallet s) \<and> u \<noteq> 0 \<and>
    \<not> completed (userQuests s u q) \<and> totalQuestsCompleted s u \<noteq> - 1 \<longrightarrow>
      (\<exists>s'. completeQuestForUser s e u q = Inr s'))"
  by (auto simp: completeQuestForUser_def checked_add_def not_max_iff [symmetric]
           split: sum.splits)

text \<open>The quest of the examples ends at time 2000: calls at times 2001 and 2000.\<close>

theorem C7_expiry_witness:
  "completeQuestForUser with_quest (backend_at 2001) 7 1 = Inl Quest_has_expired \<and>
   completeQuestForUser with_quest (backend_at 2000) 7 1 \<noteq> Inl Quest_has_expired \<and>
   (\<exists>s'. completeQuestForUser with_quest (backend_at 2000) 7 1 = Inr s')"
  using C7_expiry [of 1 with_quest "backend_at 2001" 7]
    C7_expiry [of 1 with_quest "backend_at 2000" 7]
  by (simp add: example_defs)

section \<open>The first daily claim\<close>

text \<open>
  Claim C4. The claim says that a user whose \<open>lastClaimTime\<close> is 0 can always claim.
  \<open>setDailyClaimed\<close> has no case for the value 0: it requires
  \<open>block.timestamp >= 0 + claimCooldown\<close>, so on the deployment of the examples a first
  claim at time 1000 is rejected with "Daily claim cooldown not met", while
  \<open>getUserDetails\<close>, which does treat 0 as "first time claiming", reports
  \<open>canClaimDaily = true\<close> for the same user at the same time.
\<close>

theorem C4_first_claim_rejected:
  "constructor (owner_at 1000) 2 10 86400 = Inr fresh \<and>
   lastClaimTime (dailyClaims fresh 7) = 0 \<and>
   setDailyClaimed fresh (backend_at 1000) 7 = Inl Daily_claim_cooldown_not_met \<and>
   map_sum id canClaimDaily (getUserDetails fresh (backend_at 1000) 7) = Inr True"
  by (simp add: constructor_def setDailyClaimed_def checked_add_def getUserDetails_def
        getUserDetails_loop.simps example_defs)

section \<open>Authority gating\<close>

text \<open>
  Claim C2, as amended. A call of \<open>createQuest\<close> by anyone but the owner fails with
  "Only owner can call this function"; a call of \<open>setDailyClaimed\<close> by a caller that
  is neither owner nor backend wallet fails with its \<open>Unauthorized\<close> message; a call
  of \<open>completeQuestForUser\<close> by such a caller fails too, but the modifiers run first:
  the error is "Quest does not exist", "Quest is not active" or "Quest has expired" when
  one of those checks fails, and the \<open>Unauthorized\<close> message only otherwise. In every
  case the transaction leaves the storage and the log unchanged.
\<close>

theorem C2_gating:
  "(msg_sender e \<noteq> owner s \<longrightarrow>
      createQuest s e t d r rq m ed = Inl Only_owner \<and>
      transact s (e, CreateQuest t d r rq m ed) = s) \<and>
   (msg_sender e \<noteq> owner s \<and> msg_sender e \<noteq> backendWallet s \<longrightarrow>
      setDailyClaimed s e u = Inl Only_owner_or_backend_daily \<and>
      transact s (e, SetDailyClaimed u) = s \<and>
      completeQuestForUser s e u q =
        Inl (if \<not> (0 < q \<and> q \<le> questCounter s) then Quest_does_not_exist
             else if \<not> isActive (quests s q) then Quest_is_not_active
             else if \<not> block_timestamp e \<le> endDate (quests s q) then Quest_has_expired
             else Only_owner_or_backend_complete) \<and>
      transact s (e, CompleteQuestForUser u q) = s) \<and>
   kind Only_owner = Unauthorized \<and> kind Only_owner_or_backend_daily = Unauthorized \<and>
   kind Only_owner_or_backend_complete = Unauthorized"
  by (simp add: createQuest_def setDailyClaimed_def completeQuestForUser_def transact_def)

text \<open>The theorem on the storage with one quest, for the backend wallet and a stranger.\<close>

theorem C2_gating_witness:
  "createQuest with_quest (backend_at 1500) ''t'' ''d'' 1 [''r''] 1 3000 = Inl Only_owner \<and>
   setDailyClaimed with_quest (stranger_at 1500) 7 = Inl Only_owner_or_backend_daily \<and>
   completeQuestForUser with_quest (stranger_at 1500) 7 1 = Inl Only_owner_or_backend_complete \<and>
   transact with_quest (stranger_at 1500, CompleteQuestForUser 7 1) = with_quest"
  using C2_gating [of "backend_at 1500" with_quest "''t''" "''d''" 1 "[''r'']" 1 3000 7 1]
    C2_gating [of "stranger_at 1500" with_quest "''t''" "''d''" 1 "[''r'']" 1 3000 7 1]
  by (simp add: example_defs)

text \<open>
  The claim as stated fails: a stranger asking for quest 2, which does not exist, is turned
  away with \<open>NotFound\<close>, not with \<open>Unauthorized\<close>.
\<close>

theorem C2_gating_counterexample:
  "msg_sender (stranger_at 1500) \<noteq> owner with_quest \<and>
   msg_sender (stranger_at 1500) \<noteq> backendWallet with_quest \<and>
   completeQuestForUser with_quest (stranger_at 1500) 7 2 = Inl Quest_does_not_exist \<and>
   kind Quest_does_not_exist \<noteq> Unauthorized"
  by (simp add: completeQuestForUser_def example_defs word_le_nat_alt)

lemma complete_quest_done:
  "completeQuestForUser with_quest (backend_at 1500) 7 1 = Inr quest_done"
  by (simp add: completeQuestForUser_def checked_add_def quest_done_def example_defs)

lemma checked_add_one:
  "checked_add a 1 = (if a = - 1 then Inl Panic_arithmetic else Inr (a + 1))"
  unfolding checked_add_def unat_1 not_max_iff by simp

section \<open>One-way completion\<close>

text \<open>
  Claim C1, as amended. Once \<open>completeQuestForUser\<close> has succeeded for a user and a
  quest, then after any further transactions every call for the same pair fails, and the
  stored progress stays \<open>completed = true\<close> with the \<open>completedAt\<close> of that first
  success. The failure is \<open>AlreadyCompleted\<close> when the time is at most the quest's
  \<open>endDate\<close> and the caller is the owner or the backend wallet; after \<open>endDate\<close> it is
  "Quest has expired", since that check runs first. No operation of the contract clears
  \<open>isActive\<close>, so the quest stays active.
\<close>

theorem C1_one_way:
  assumes "completeQuestForUser s e u q = Inr s1"
  shows "completeQuestForUser (run s1 ts) e' u q =
           Inl (if \<not> block_timestamp e' \<le> endDate (quests s q) then Quest_has_expired
                else if \<not> (msg_sender e' = owner s \<or> msg_sender e' = backendWallet s)
                  then Only_owner_or_backend_complete
                else Quest_already_completed) \<and>
         kind Quest_already_completed = AlreadyCompleted \<and>
         userQuests (run s1 ts) u q = \<lparr>completed = True, completedAt = block_timestamp e\<rparr>"
proof -
  from completeQuestForUser_Inr [OF assms]
  have pos: "0 < q" and ex: "q \<le> questCounter s1" and act: "isActive (quests s1 q)"
    and u: "u \<noteq> 0" and q1: "quests s1 q = quests s q"
    and done1: "userQuests s1 u q = \<lparr>completed = True, completedAt = block_timestamp e\<rparr>"
    and fr: "owner s1 = owner s" "backendWallet s1 = backendWallet s"
    by auto
  have ex2: "q \<le> questCounter (run s1 ts)" and q2: "quests (run s1 ts) q = quests s q"
    using run_quest_kept [OF ex, of ts] q1 by simp_all
  have "completed (userQuests s1 u q)" using done1 by simp
  from run_completed_kept [OF this, of ts] done1
  have done2: "userQuests (run s1 ts) u q = \<lparr>completed = True, completedAt = block_timestamp e\<rparr>"
    by simp
  have fr2: "owner (run s1 ts) = owner s" "backendWallet (run s1 ts) = backendWallet s"
    using run_frame [of s1 ts] fr by simp_all
  show ?thesis
    using pos ex2 q2 act q1 u done2 fr2 by (simp add: completeQuestForUser_def)
qed

text \<open>A second completion at time 1700, after the owner created another quest.\<close>

theorem C1_one_way_witness:
  "completeQuestForUser with_quest (backend_at 1500) 7 1 = Inr quest_done \<and>
   completeQuestForUser (run quest_done [(owner_at 1600, quest1)]) (backend_at 1700) 7 1
     = Inl Quest_already_completed \<and>
   userQuests (run quest_done [(owner_at 1600, quest1)]) 7 1
     = \<lparr>completed = True, completedAt = 1500\<rparr>"
  using C1_one_way [OF complete_quest_done, of "[(owner_at 1600, quest1)]" "backend_at 1700"]
    complete_quest_done
  by (simp add: example_defs)

text \<open>
  The claim as stated fails: the quest ends at time 2000, and a repeated call at time 2500
  is rejected with \<open>QuestUnavailable\<close>, not with \<open>AlreadyCompleted\<close>.
\<close>

theorem C1_one_way_counterexample:
  "completeQuestForUser with_quest (backend_at 1500) 7 1 = Inr quest_done \<and>
   completeQuestForUser quest_done (backend_at 2500) 7 1 = Inl Quest_has_expired \<and>
   kind Quest_has_expired \<noteq> AlreadyCompleted"
  by (simp add: completeQuestForUser_def checked_add_def quest_done_def example_defs)

lemma created_ids_append: "created_ids (xs @ ys) = created_ids xs @ created_ids ys"
  by (induction xs rule: created_ids.induct) simp_all

lemma dispatch_created:
  "dispatch s e c = Inr s' \<Longrightarrow>
     created_ids (events s) = map of_nat [1..<Suc (unat (questCounter s))] \<Longrightarrow>
     created_ids (events s') = map of_nat [1..<Suc (unat (questCounter s'))]"
  by (cases c)
     (auto dest!: createQuest_Inr completeQuestForUser_Inr setDailyClaimed_Inr
           simp: created_ids_append unat_plus1)

lemma transact_created:
  "created_ids (events s) = map of_nat [1..<Suc (unat (questCounter s))] \<Longrightarrow>
     created_ids (events (transact s t)) = map of_nat [1..<Suc (unat (questCounter (transact s t)))]"
  using transact_cases [of s t] dispatch_created [of s "fst t" "snd t"] by auto

lemma run_created:
  "created_ids (events s) = map of_nat [1..<Suc (unat (questCounter s))] \<Longrightarrow>
     created_ids (events (run s ts)) = map of_nat [1..<Suc (unat (questCounter (run s ts)))]"
  by (induction ts arbitrary: s) (simp_all add: transact_created)

lemma constructor_Inr:
  "constructor e b a c = Inr s \<Longrightarrow>
     s = \<lparr>owner = msg_sender e, backendWallet = b, questCounter = 0,
          quests = (\<lambda>_. zero_Quest), userQuests = (\<lambda>_ _. zero_UserProgress),
          totalQuestsCompleted = (\<lambda>_. 0), dailyClaims = (\<lambda>_. zero_DailyClaim),
          dailyRewardAmount = a, claimCooldown = c, events = []\<rparr>"
  by (auto simp: constructor_def split: if_splits)

lemma sorted_wrt_word_upt:
  "b \<le> 2 ^ 256 \<Longrightarrow> sorted_wrt (<) (map (of_nat :: nat \<Rightarrow> uint256) [a..<b])"
proof -
  assume b: "b \<le> 2 ^ 256"
  have "sorted_wrt (\<lambda>x y. (of_nat x :: uint256) < of_nat y) [a..<b]"
  proof (rule sorted_wrt_mono_rel [of _ "(<)"])
    fix x y assume "x \<in> set [a..<b]" "y \<in> set [a..<b]" "x < y"
    then have "x < 2 ^ 256" "y < 2 ^ 256" using b by auto
    then have "unat (of_nat x :: uint256) = x" "unat (of_nat y :: uint256) = y"
      by (simp_all add: unat_of_nat take_bit_nat_eq_self)
    with \<open>x < y\<close> show "(of_nat x :: uint256) < of_nat y"
      by (simp add: word_less_nat_alt)
  next
    show "sorted_wrt (<) [a..<b]" by simp
  qed
  then show ?thesis by (simp add: sorted_wrt_map)
qed

section \<open>Quest ids\<close>

text \<open>
  Claim C5. From the storage the constructor leaves, after any sequence of transactions
  the ids announced by the \<open>QuestCreated\<close> events are, in order of emission, exactly
  1, 2, ..., \<open>questCounter\<close>: strictly increasing, without gap or repeat. Every further
  successful \<open>createQuest\<close> raises the counter by one and announces and stores the new
  value as the id of its quest, so no id is ever used again.
\<close>

theorem C5_sequential_ids:
  assumes "constructor e0 b a c = Inr s0"
  shows "created_ids (events (run s0 ts)) =
           map of_nat [1..<Suc (unat (questCounter (run s0 ts)))] \<and>
         sorted_wrt (<) (created_ids (events (run s0 ts))) \<and>
         (\<forall>e t d r rq m ed s'.
            createQuest (run s0 ts) e t d r rq m ed = Inr s' \<longrightarrow>
              unat (questCounter s') = Suc (unat (questCounter (run s0 ts))) \<and>
              events s' = events (run s0 ts) @ [QuestCreated (questCounter s') t r ed] \<and>
              id_q (quests s' (questCounter s')) = questCounter s')"
proof -
  have init: "created_ids (events s0) = map of_nat [1..<Suc (unat (questCounter s0))]"
    using constructor_Inr [OF assms] by simp
  have ids: "created_ids (events (run s0 ts)) =
      map of_nat [1..<Suc (unat (questCounter (run s0 ts)))]"
    using init by (rule run_created)
  have "Suc (unat (questCounter (run s0 ts))) \<le> 2 ^ 256"
    using unsigned_less [of "questCounter (run s0 ts)", where 'a = nat] by simp
  then have "sorted_wrt (<) (created_ids (events (run s0 ts)))"
    unfolding ids by (rule sorted_wrt_word_upt)
  moreover have "unat (questCounter s') = Suc (unat (questCounter (run s0 ts))) \<and>
      events s' = events (run s0 ts) @ [QuestCreated (questCounter s') t r ed] \<and>
      id_q (quests s' (questCounter s')) = questCounter s'"
    if "createQuest (run s0 ts) e t d r rq m ed = Inr s'" for e t d r rq m ed s'
    using createQuest_Inr [OF that] by (auto simp: unat_plus1)
  ultimately show ?thesis using ids by blast
qed

text \<open>
  Two successful creations by the owner, with a completion and a rejected creation by a
  stranger in between.
\<close>

theorem C5_sequential_ids_witness:
  "created_ids (events (run fresh
      [(owner_at 1000, quest1), (backend_at 1500, CompleteQuestForUser 7 1),
       (stranger_at 1600, quest1), (owner_at 1700, quest1)])) = [1, 2]"
proof -
  have "questCounter (run fresh
      [(owner_at 1000, quest1), (backend_at 1500, CompleteQuestForUser 7 1),
       (stranger_at 1600, quest1), (owner_at 1700, quest1)]) = 2"
    by (simp add: transact_def createQuest_def completeQuestForUser_def checked_add_def
          example_defs)
  then show ?thesis
    using C5_sequential_ids [OF constructor_fresh, of
      "[(owner_at 1000, quest1), (backend_at 1500, CompleteQuestForUser 7 1),
        (stranger_at 1600, quest1), (owner_at 1700, quest1)]"]
    by (simp add: upt_rec)
qed

lemma dispatch_daily_kept:
  "dispatch s e c = Inr s' \<Longrightarrow> c \<noteq> SetDailyClaimed u \<Longrightarrow> dailyClaims s' u = dailyClaims s u"
  by (cases c)
     (auto dest!: createQuest_Inr completeQuestForUser_Inr setDailyClaimed_Inr)

lemma transact_daily_kept:
  "snd t \<noteq> SetDailyClaimed u \<Longrightarrow> dailyClaims (transact s t) u = dailyClaims s u"
  using transact_cases [of s t] dispatch_daily_kept [of s "fst t" "snd t" _ u] by auto

lemma run_daily_kept:
  "\<forall>t\<in>set ts. snd t \<noteq> SetDailyClaimed u \<Longrightarrow> dailyClaims (run s ts) u = dailyClaims s u"
  by (induction ts arbitrary: s) (simp_all add: transact_daily_kept)

section \<open>Cooldown of the daily claim\<close>

text \<open>
  What \<open>setDailyClaimed\<close> does for a user after a successful claim at time \<open>t0\<close>,
  with no other claim for that user in between, for any two \<open>uint256\<close> times. The
  third outcome, a panic of the checked addition, needs \<open>t0 + C\<close> beyond the range of
  \<open>uint256\<close>.
\<close>

lemma cooldown_after_claim:
  assumes "setDailyClaimed s e u = Inr s1"
    and "\<forall>t\<in>set ts. snd t \<noteq> SetDailyClaimed u"
    and "msg_sender e' = owner s \<or> msg_sender e' = backendWallet s"
  shows "(unat (block_timestamp e) + unat (claimCooldown s) \<le> unat (block_timestamp e') \<longrightarrow>
           (\<exists>s3. setDailyClaimed (run s1 ts) e' u = Inr s3)) \<and>
         (unat (block_timestamp e') < unat (block_timestamp e) + unat (claimCooldown s) \<longrightarrow>
           setDailyClaimed (run s1 ts) e' u =
             Inl (if unat (block_timestamp e) + unat (claimCooldown s) < 2 ^ 256
                  then Daily_claim_cooldown_not_met else Panic_arithmetic)) \<and>
         kind Daily_claim_cooldown_not_met = CooldownActive"
proof -
  from setDailyClaimed_Inr [OF assms(1)]
  have u: "u \<noteq> 0" and last1: "lastClaimTime (dailyClaims s1 u) = block_timestamp e"
    and fr: "owner s1 = owner s" "backendWallet s1 = backendWallet s"
      "claimCooldown s1 = claimCooldown s"
    by auto
  have last2: "lastClaimTime (dailyClaims (run s1 ts) u) = block_timestamp e"
    using run_daily_kept [OF assms(2), of s1] last1 by simp
  have fr2: "owner (run s1 ts) = owner s" "backendWallet (run s1 ts) = backendWallet s"
    "claimCooldown (run s1 ts) = claimCooldown s"
    using run_frame [of s1 ts] fr by simp_all
  have bound: "unat (block_timestamp e') < 2 ^ 256"
    using unsigned_less [of "block_timestamp e'", where 'a = nat] by simp
  have sum: "unat (block_timestamp e + claimCooldown s)
      = unat (block_timestamp e) + unat (claimCooldown s)"
    if "unat (block_timestamp e) + unat (claimCooldown s) < 2 ^ 256"
    using that by (rule unat_checked_sum)
  show ?thesis
    using u last2 fr2 assms(3) bound sum
    by (auto simp: setDailyClaimed_def checked_add_def Let_def word_le_nat_alt)
qed

text \<open>
  Claim C3. After a successful \<open>setDailyClaimed\<close> for a user at time \<open>t0\<close>, with
  cooldown \<open>C\<close> and no other claim for that user in between, a call by the owner or
  the backend wallet for that user fails with \<open>CooldownActive\<close> at every time
  \<open>t < t0 + C\<close>, in particular for \<open>t0 < t < t0 + C\<close>, and succeeds at every time
  \<open>t >= t0 + C\<close>. The time of the claim is a block timestamp, a number of seconds
  below \<open>2 ^ 255\<close>; the claim having succeeded, \<open>C <= t0\<close>, so \<open>t0 + C\<close> is
  within \<open>uint256\<close>.
\<close>

theorem C3_cooldown:
  assumes "setDailyClaimed s e u = Inr s1"
    and "\<forall>t\<in>set ts. snd t \<noteq> SetDailyClaimed u"
    and "msg_sender e' = owner s \<or> msg_sender e' = backendWallet s"
    and "unat (block_timestamp e) < 2 ^ 255"
  shows "(unat (block_timestamp e') < unat (block_timestamp e) + unat (claimCooldown s) \<longrightarrow>
           setDailyClaimed (run s1 ts) e' u = Inl Daily_claim_cooldown_not_met) \<and>
         (unat (block_timestamp e) + unat (claimCooldown s) \<le> unat (block_timestamp e') \<longrightarrow>
           (\<exists>s3. setDailyClaimed (run s1 ts) e' u = Inr s3)) \<and>
         kind Daily_claim_cooldown_not_met = CooldownActive"
proof -
  from setDailyClaimed_Inr [OF assms(1)]
  have room: "unat (lastClaimTime (dailyClaims s u)) + unat (claimCooldown s) < 2 ^ 256"
    and due: "lastClaimTime (dailyClaims s u) + claimCooldown s \<le> block_timestamp e"
    by auto
  have "unat (lastClaimTime (dailyClaims s u)) + unat (claimCooldown s)
      \<le> unat (block_timestamp e)"
    using due unat_checked_sum [OF room] by (simp add: word_le_nat_alt)
  then have "unat (claimCooldown s) \<le> unat (block_timestamp e)" by simp
  then have fits: "unat (block_timestamp e) + unat (claimCooldown s) < 2 ^ 256"
    using assms(4) by simp
  show ?thesis
    using cooldown_after_claim [OF assms(1-3)] fits by simp
qed

text \<open>
  A claim at time 90000 with a cooldown of 86400: a second claim is rejected at time
  100000 and accepted at time 176400.
\<close>

theorem C3_cooldown_witness:
  "setDailyClaimed (run (transact fresh (backend_at 90000, SetDailyClaimed 7))
       [(owner_at 90100, quest1), (backend_at 90200, SetDailyClaimed 8)])
     (backend_at 100000) 7 = Inl Daily_claim_cooldown_not_met \<and>
   (\<exists>s3. setDailyClaimed (run (transact fresh (backend_at 90000, SetDailyClaimed 7))
       [(owner_at 90100, quest1), (backend_at 90200, SetDailyClaimed 8)])
     (backend_at 176400) 7 = Inr s3)"
proof -
  have first: "setDailyClaimed fresh (backend_at 90000) 7
      = Inr (transact fresh (backend_at 90000, SetDailyClaimed 7))"
    by (simp add: transact_def setDailyClaimed_def checked_add_def example_defs)
  have others: "\<forall>t\<in>set [(owner_at 90100, quest1), (backend_at 90200, SetDailyClaimed 8)].
      snd t \<noteq> SetDailyClaimed 7"
    by (simp add: quest1_def)
  have caller: "msg_sender (backend_at 100000) = owner fresh \<or>
      msg_sender (backend_at 100000) = backendWallet fresh"
    "msg_sender (backend_at 176400) = owner fresh \<or>
      msg_sender (backend_at 176400) = backendWallet fresh"
    by (simp_all add: example_defs)
  have clock: "unat (block_timestamp (backend_at 90000)) < 2 ^ 255"
    by (simp add: backend_at_def)
  show ?thesis
    using C3_cooldown [OF first others caller(1) clock]
      C3_cooldown [OF first others caller(2) clock]
    by (simp add: example_defs)
qed

section \<open>The loop of getUserDetails\<close>

lemma ids_from_done: "unat (questCounter s) < n \<Longrightarrow> ids_from s u n = []"
  by (simp add: ids_from_def)

lemma ids_from_step:
  "i \<le> questCounter s \<Longrightarrow>
     ids_from s u (unat i) =
       (if completed (userQuests s u i) then [i] else []) @ ids_from s u (Suc (unat i))"
proof -
  assume "i \<le> questCounter s"
  then have "unat i < Suc (unat (questCounter s))"
    by (simp add: word_le_nat_alt)
  then have "[unat i..<Suc (unat (questCounter s))]
      = unat i # [Suc (unat i)..<Suc (unat (questCounter s))]"
    by (rule upt_conv_Cons)
  then show ?thesis
    by (simp add: ids_from_def del: upt_Suc)
qed

lemma loop_result:
  "getUserDetails_loop s u i arr k = Inr arr' \<Longrightarrow>
     arr' = take (unat k) arr @ ids_from s u (unat i)
              @ drop (unat k + length (ids_from s u (unat i))) arr"
proof (induction s u i arr k rule: getUserDetails_loop.induct)
  case (1 s user i arr completedIndex)
  note run = "1.prems"
  show ?case
  proof (cases "i \<le> questCounter s")
    case False
    then have "unat (questCounter s) < unat i" by (simp add: word_le_nat_alt)
    then have "ids_from s user (unat i) = []" by (rule ids_from_done)
    moreover have "arr' = arr"
      using run False by (subst (asm) getUserDetails_loop.simps) simp
    ultimately show ?thesis by simp
  next
    case True
    note step = ids_from_step [OF True, of user]
    show ?thesis
    proof (cases "completed (userQuests s user i)")
      case yes: True
      from run True yes
      have inb: "unat completedIndex < length arr"
        and nok: "unat completedIndex + 1 < 2 ^ 256"
        and noi: "unat i + 1 < 2 ^ 256"
        and rec: "getUserDetails_loop s user (i + 1) (arr[unat completedIndex := i])
                    (completedIndex + 1) = Inr arr'"
        by (subst (asm) getUserDetails_loop.simps, simp split: if_splits)+
      have uk: "unat (completedIndex + 1) = Suc (unat completedIndex)"
        and ui: "unat (i + 1) = Suc (unat i)"
        using nok noi by (simp_all add: unat_plus1)
      have ih: "arr' = take (unat (completedIndex + 1)) (arr[unat completedIndex := i])
            @ ids_from s user (unat (i + 1))
            @ drop (unat (completedIndex + 1) + length (ids_from s user (unat (i + 1))))
                (arr[unat completedIndex := i])"
        using "1.IH"(1) [OF True yes _ _ _ rec] inb nok noi by simp
      have "take (Suc (unat completedIndex)) (arr[unat completedIndex := i])
          = take (unat completedIndex) arr @ [i]"
        using inb by (simp add: take_Suc_conv_app_nth)
      then show ?thesis
        using ih step yes by (simp add: uk ui)
    next
      case todo: False
      from run True todo
      have noi: "unat i + 1 < 2 ^ 256"
        and rec: "getUserDetails_loop s user (i + 1) arr completedIndex = Inr arr'"
        by (subst (asm) getUserDetails_loop.simps, simp split: if_splits)+
      have ui: "unat (i + 1) = Suc (unat i)"
        using noi by (simp add: unat_plus1)
      have "arr' = take (unat completedIndex) arr @ ids_from s user (unat (i + 1))
            @ drop (unat completedIndex + length (ids_from s user (unat (i + 1)))) arr"
        using "1.IH"(2) [OF True todo _ rec] noi by simp
      then show ?thesis
        using step todo by (simp add: ui)
    qed
  qed
qed

lemma loop_returns:
  "questCounter s \<noteq> - 1 \<Longrightarrow> length arr < 2 ^ 256 \<Longrightarrow>
     unat k + length (ids_from s u (unat i)) \<le> length arr \<Longrightarrow>
     \<exists>arr'. getUserDetails_loop s u i arr k = Inr arr'"
proof (induction s u i arr k rule: getUserDetails_loop.induct)
  case (1 s user i arr completedIndex)
  note room = "1.prems"(3)
  show ?case
  proof (cases "i \<le> questCounter s")
    case False
    then show ?thesis by (subst getUserDetails_loop.simps) simp
  next
    case True
    note step = ids_from_step [OF True, of user]
    have "unat (questCounter s) + 1 < 2 ^ 256"
      using "1.prems"(1) not_max_iff [of "questCounter s"] by blast
    moreover have "unat i \<le> unat (questCounter s)"
      using True by (simp add: word_le_nat_alt)
    ultimately have noi: "unat i + 1 < 2 ^ 256" by simp
    then have ui: "unat (i + 1) = Suc (unat i)" by (simp add: unat_plus1)
    show ?thesis
    proof (cases "completed (userQuests s user i)")
      case yes: True
      have inb: "unat completedIndex < length arr"
        using room step yes by simp
      then have nok: "unat completedIndex + 1 < 2 ^ 256"
        using "1.prems"(2) by simp
      then have uk: "unat (completedIndex + 1) = Suc (unat completedIndex)"
        by (simp add: unat_plus1)
      have "\<exists>arr'. getUserDetails_loop s user (i + 1) (arr[unat completedIndex := i])
          (completedIndex + 1) = Inr arr'"
      proof (rule "1.IH"(1) [OF True yes])
        show "\<not> \<not> unat completedIndex < length arr" using inb by simp
        show "\<not> \<not> unat completedIndex + 1 < 2 ^ 256" using nok by simp
        show "\<not> \<not> unat i + 1 < 2 ^ 256" using noi by simp
        show "questCounter s \<noteq> - 1" by (rule "1.prems"(1))
        show "length (arr[unat completedIndex := i]) < 2 ^ 256" using "1.prems"(2) by simp
        show "unat (completedIndex + 1) + length (ids_from s user (unat (i + 1)))
            \<le> length (arr[unat completedIndex := i])"
          using room step yes by (simp add: uk ui)
      qed
      then show ?thesis
        using True yes inb nok noi by (subst getUserDetails_loop.simps) simp
    next
      case todo: False
      have "\<exists>arr'. getUserDetails_loop s user (i + 1) arr completedIndex = Inr arr'"
      proof (rule "1.IH"(2) [OF True todo])
        show "\<not> \<not> unat i + 1 < 2 ^ 256" using noi by simp
        show "questCounter s \<noteq> - 1" by (rule "1.prems"(1))
        show "length arr < 2 ^ 256" by (rule "1.prems"(2))
        show "unat completedIndex + length (ids_from s user (unat (i + 1))) \<le> length arr"
          using room step todo by (simp add: ui)
      qed
      then show ?thesis
        using True todo noi by (subst getUserDetails_loop.simps) simp
    qed
  qed
qed

section \<open>Invariants along a run\<close>

lemma ledger_ok_constructor: "constructor e b a c = Inr s \<Longrightarrow> ledger_ok s"
  by (drule constructor_Inr) (simp add: ledger_ok_def zero_UserProgress_def)

lemma ledger_ok_createQuest:
  assumes "createQuest s e t d r rq m ed = Inr s'" and "ledger_ok s"
  shows "ledger_ok s'"
proof -
  from createQuest_Inr [OF assms(1)]
  have room: "unat (questCounter s) + 1 < 2 ^ 256"
    and uq: "userQuests s' = userQuests s"
    and tot: "totalQuestsCompleted s' = totalQuestsCompleted s"
    and qc: "questCounter s' = questCounter s + 1"
    by auto
  have "q \<le> questCounter s + 1" if "q \<le> questCounter s" for q
    using counter_step [OF room that] by simp
  then show ?thesis
    using assms(2) by (auto simp: ledger_ok_def uq tot qc)
qed

lemma ledger_ok_completeQuestForUser:
  assumes "completeQuestForUser s e u q = Inr s'" and "ledger_ok s"
  shows "ledger_ok s'"
proof -
  from completeQuestForUser_Inr [OF assms(1)]
  have pos: "0 < q" and ex: "q \<le> questCounter s" and new: "\<not> completed (userQuests s u q)"
    and room: "unat (totalQuestsCompleted s u) + 1 < 2 ^ 256"
    and uq: "userQuests s' = (userQuests s)(u := (userQuests s u)(q :=
               \<lparr>completed = True, completedAt = block_timestamp e\<rparr>))"
    and tot: "totalQuestsCompleted s' = (totalQuestsCompleted s)(u := totalQuestsCompleted s u + 1)"
    and qc: "questCounter s' = questCounter s"
    by auto
  have range: "0 < q' \<and> q' \<le> questCounter s'" if "completed (userQuests s' u' q')" for u' q'
  proof (cases "u' = u \<and> q' = q")
    case True
    then show ?thesis using pos ex qc by simp
  next
    case False
    then have "completed (userQuests s u' q')" using that uq by (auto split: if_splits)
    then show ?thesis using assms(2) qc by (simp add: ledger_ok_def)
  qed
  have count: "unat (totalQuestsCompleted s' u') = card {q'. completed (userQuests s' u' q')}"
    for u'
  proof (cases "u' = u")
    case True
    have "{q'. completed (userQuests s' u q')} = insert q {q'. completed (userQuests s u q')}"
      using uq by auto
    then have "card {q'. completed (userQuests s' u q')}
        = Suc (card {q'. completed (userQuests s u q')})"
      using new by simp
    moreover have "unat (totalQuestsCompleted s' u) = Suc (unat (totalQuestsCompleted s u))"
      using room tot by (simp add: unat_plus1)
    ultimately show ?thesis
      using assms(2) True by (simp add: ledger_ok_def)
  next
    case False
    then show ?thesis using assms(2) uq tot by (simp add: ledger_ok_def)
  qed
  show ?thesis
    unfolding ledger_ok_def using range count by blast
qed

lemma ledger_ok_setDailyClaimed:
  "setDailyClaimed s e u = Inr s' \<Longrightarrow> ledger_ok s \<Longrightarrow> ledger_ok s'"
  by (drule setDailyClaimed_Inr) (auto simp: ledger_ok_def)

lemma ledger_ok_dispatch: "dispatch s e c = Inr s' \<Longrightarrow> ledger_ok s \<Longrightarrow> ledger_ok s'"
  by (cases c)
     (auto intro: ledger_ok_createQuest ledger_ok_completeQuestForUser ledger_ok_setDailyClaimed)

lemma ledger_ok_transact: "ledger_ok s \<Longrightarrow> ledger_ok (transact s t)"
  using transact_cases [of s t] ledger_ok_dispatch [of s "fst t" "snd t"] by auto

lemma ledger_ok_run: "ledger_ok s \<Longrightarrow> ledger_ok (run s ts)"
  by (induction ts arbitrary: s) (simp_all add: ledger_ok_transact)

lemma word_of_nat_inj_upt:
  "distinct (map (of_nat :: nat \<Rightarrow> uint256) [a..<Suc (unat (c :: uint256))])"
proof -
  have "Suc (unat c) \<le> 2 ^ 256"
    using unsigned_less [of c, where 'a = nat] by simp
  then have "sorted_wrt (<) (map (of_nat :: nat \<Rightarrow> uint256) [a..<Suc (unat c)])"
    by (rule sorted_wrt_word_upt)
  then show ?thesis by (simp add: strict_sorted_iff)
qed

lemma set_ids_from_1:
  "set (ids_from s u 1) = {q. 0 < q \<and> q \<le> questCounter s \<and> completed (userQuests s u q)}"
proof -
  have "q \<in> of_nat ` {1..<Suc (unat (questCounter s))} \<longleftrightarrow> 0 < q \<and> q \<le> questCounter s"
    for q :: uint256
  proof
    assume "q \<in> of_nat ` {1..<Suc (unat (questCounter s))}"
    then obtain n where n: "1 \<le> n" "n \<le> unat (questCounter s)" and q: "q = of_nat n" by auto
    have "n < 2 ^ 256"
      using n(2) unsigned_less [of "questCounter s", where 'a = nat] by simp
    then have "unat q = n" using q by (simp add: unat_of_nat take_bit_nat_eq_self)
    then show "0 < q \<and> q \<le> questCounter s"
      using n by (simp add: word_le_nat_alt word_less_nat_alt)
  next
    assume "0 < q \<and> q \<le> questCounter s"
    then have "1 \<le> unat q" "unat q \<le> unat (questCounter s)"
      by (simp_all add: word_le_nat_alt word_less_nat_alt)
    then have "of_nat (unat q) \<in> (of_nat :: nat \<Rightarrow> uint256) ` {1..<Suc (unat (questCounter s))}"
      by (intro imageI) simp
    then show "q \<in> of_nat ` {1..<Suc (unat (questCounter s))}" by simp
  qed
  then have "(of_nat :: nat \<Rightarrow> uint256) ` {1..<Suc (unat (questCounter s))}
      = {q. 0 < q \<and> q \<le> questCounter s}"
    by blast
  then have "set (map of_nat [1..<Suc (unat (questCounter s))])
      = {q :: uint256. 0 < q \<and> q \<le> questCounter s}"
    by (simp only: set_map set_upt)
  then show ?thesis
    unfolding ids_from_def set_filter by blast
qed

lemma length_completed_ids:
  assumes "ledger_ok s"
  shows "length (completed_ids s u) = unat (totalQuestsCompleted s u)"
proof -
  have "distinct (completed_ids s u)"
    unfolding completed_ids_def ids_from_def by (rule distinct_filter [OF word_of_nat_inj_upt])
  then have "length (completed_ids s u) = card (set (completed_ids s u))"
    by (simp add: distinct_card)
  also have "set (completed_ids s u) = {q. completed (userQuests s u q)}"
    using assms unfolding completed_ids_def set_ids_from_1 ledger_ok_def by auto
  finally show ?thesis using assms by (simp add: ledger_ok_def)
qed

lemma sorted_completed_ids: "sorted_wrt (<) (completed_ids s u)"
proof -
  have "Suc (unat (questCounter s)) \<le> 2 ^ 256"
    using unsigned_less [of "questCounter s", where 'a = nat] by simp
  then have "sorted_wrt (<) (map (of_nat :: nat \<Rightarrow> uint256) [1..<Suc (unat (questCounter s))])"
    by (rule sorted_wrt_word_upt)
  then show ?thesis
    unfolding completed_ids_def ids_from_def by (rule sorted_wrt_filter)
qed

lemma loop_from_start:
  assumes "ledger_ok s"
    and "getUserDetails_loop s u 1 (replicate (unat (totalQuestsCompleted s u)) 0) 0 = Inr arr'"
  shows "arr' = completed_ids s u"
  using loop_result [OF assms(2)] length_completed_ids [OF assms(1), of u]
  by (simp add: completed_ids_def)

lemma loop_from_start_returns:
  assumes "ledger_ok s" and "questCounter s \<noteq> - 1"
  shows "getUserDetails_loop s u 1 (replicate (unat (totalQuestsCompleted s u)) 0) 0
           = Inr (completed_ids s u)"
proof -
  have "length (replicate (unat (totalQuestsCompleted s u)) (0 :: uint256)) < 2 ^ 256"
    using unsigned_less [of "totalQuestsCompleted s u", where 'a = nat] by simp
  moreover have "unat (0 :: uint256) + length (ids_from s u (unat (1 :: uint256)))
      \<le> length (replicate (unat (totalQuestsCompleted s u)) (0 :: uint256))"
    using length_completed_ids [OF assms(1), of u] by (simp add: completed_ids_def)
  ultimately obtain arr'
    where "getUserDetails_loop s u 1 (replicate (unat (totalQuestsCompleted s u)) 0) 0 = Inr arr'"
    using loop_returns [OF assms(2)] by blast
  then show ?thesis using loop_from_start [OF assms(1)] by simp
qed

lemma claims_before_mono: "claims_before t s \<Longrightarrow> t \<le> t' \<Longrightarrow> claims_before t' s"
  unfolding claims_before_def using order_trans by blast

lemma claims_before_dispatch:
  "dispatch s e c = Inr s' \<Longrightarrow> claims_before (block_timestamp e) s \<Longrightarrow>
     claims_before (block_timestamp e) s'"
  by (cases c)
     (auto dest!: createQuest_Inr completeQuestForUser_Inr setDailyClaimed_Inr
           simp: claims_before_def)

lemma claims_before_transact:
  assumes "claims_before t s" and "t \<le> block_timestamp (fst tx)"
  shows "claims_before (block_timestamp (fst tx)) (transact s tx)"
proof -
  have "claims_before (block_timestamp (fst tx)) s"
    using assms by (rule claims_before_mono)
  then show ?thesis
    using transact_cases [of s tx] claims_before_dispatch [of s "fst tx" "snd tx"] by auto
qed

lemma claims_before_run:
  "claims_before t s \<Longrightarrow> chronological t ts \<Longrightarrow> claims_before (last_time t ts) (run s ts)"
  by (induction ts arbitrary: s t) (simp_all add: claims_before_transact)

lemma claims_before_constructor: "constructor e b a c = Inr s \<Longrightarrow> claims_before t s"
  by (drule constructor_Inr) (simp add: claims_before_def zero_DailyClaim_def)

lemma dispatch_unconcerned:
  "dispatch s e c = Inr s' \<Longrightarrow> \<not> concerns u c \<Longrightarrow>
     userQuests s' u = userQuests s u \<and> totalQuestsCompleted s' u = totalQuestsCompleted s u \<and>
     dailyClaims s' u = dailyClaims s u"
  by (cases c)
     (auto dest!: createQuest_Inr completeQuestForUser_Inr setDailyClaimed_Inr)

lemma transact_unconcerned:
  "\<not> concerns u (snd t) \<Longrightarrow>
     userQuests (transact s t) u = userQuests s u \<and>
     totalQuestsCompleted (transact s t) u = totalQuestsCompleted s u \<and>
     dailyClaims (transact s t) u = dailyClaims s u"
  using transact_cases [of s t] dispatch_unconcerned [of s "fst t" "snd t" _ u] by auto

lemma run_unconcerned:
  "\<forall>t\<in>set ts. \<not> concerns u (snd t) \<Longrightarrow>
     userQuests (run s ts) u = userQuests s u \<and>
     totalQuestsCompleted (run s ts) u = totalQuestsCompleted s u \<and>
     dailyClaims (run s ts) u = dailyClaims s u"
  by (induction ts arbitrary: s) (simp_all add: transact_unconcerned)

lemma completed_ids_none: "\<forall>q. \<not> completed (userQuests s u q) \<Longrightarrow> completed_ids s u = []"
  by (simp add: completed_ids_def ids_from_def)

lemma getUserDetails_ok:
  assumes "ledger_ok s" and "questCounter s \<noteq> - 1"
    and "lastClaimTime (dailyClaims s u) \<le> block_timestamp e"
  shows "getUserDetails s e u =
    Inr \<lparr>completedQuestIds = completed_ids s u,
         totalQuestsCompleted_d = totalQuestsCompleted s u,
         dailyClaimInfo = dailyClaims s u,
         canClaimDaily =
           (lastClaimTime (dailyClaims s u) = 0 \<or>
            claimCooldown s \<le> block_timestamp e - lastClaimTime (dailyClaims s u)),
         timeUntilNextClaim =
           (if lastClaimTime (dailyClaims s u) = 0 \<or>
               claimCooldown s \<le> block_timestamp e - lastClaimTime (dailyClaims s u)
            then 0
            else claimCooldown s - (block_timestamp e - lastClaimTime (dailyClaims s u)))\<rparr>"
  using assms(3)
  by (auto simp: getUserDetails_def loop_from_start_returns [OF assms(1,2)] checked_sub_def
        Let_def)

lemma getUserDetails_Inr:
  assumes "ledger_ok s" and "getUserDetails s e u = Inr d"
  shows "completedQuestIds d = completed_ids s u \<and>
         totalQuestsCompleted_d d = totalQuestsCompleted s u"
proof (cases "getUserDetails_loop s u 1 (replicate (unat (totalQuestsCompleted s u)) 0) 0")
  case (Inl p)
  then show ?thesis using assms(2) by (simp add: getUserDetails_def)
next
  case (Inr arr')
  then have "arr' = completed_ids s u" by (rule loop_from_start [OF assms(1)])
  then show ?thesis
    using assms(2) Inr
    by (auto simp: getUserDetails_def Let_def split: if_splits sum.splits)
qed

lemma run_creates:
  "msg_sender e = owner s \<Longrightarrow> block_timestamp e < ed \<Longrightarrow> rq \<noteq> [] \<Longrightarrow>
   unat (questCounter s) + n < 2 ^ 256 \<Longrightarrow>
     questCounter (run s (replicate n (e, CreateQuest t d r rq m ed)))
       = questCounter s + of_nat n \<and>
     userQuests (run s (replicate n (e, CreateQuest t d r rq m ed))) = userQuests s \<and>
     totalQuestsCompleted (run s (replicate n (e, CreateQuest t d r rq m ed)))
       = totalQuestsCompleted s"
proof (induction n arbitrary: s)
  case 0
  then show ?case by simp
next
  case (Suc n)
  let ?tx = "(e, CreateQuest t d r rq m ed)"
  have room: "questCounter s \<noteq> - 1"
    using Suc.prems(4) not_max_iff [of "questCounter s"] by auto
  have step: "createQuest s e t d r rq m ed = Inr (transact s ?tx)"
    using Suc.prems(1-3) room by (simp add: transact_def createQuest_def checked_add_one)
  from createQuest_Inr [OF step]
  have qc: "questCounter (transact s ?tx) = questCounter s + 1"
    and uq: "userQuests (transact s ?tx) = userQuests s"
    and tot: "totalQuestsCompleted (transact s ?tx) = totalQuestsCompleted s"
    and ow: "owner (transact s ?tx) = owner s"
    and un: "unat (questCounter s) + 1 < 2 ^ 256"
    by (auto simp del: dispatch.simps)
  have "unat (questCounter (transact s ?tx)) + n < 2 ^ 256"
    using Suc.prems(4) un by (simp add: qc unat_plus1)
  from Suc.IH [OF _ Suc.prems(2,3) this] Suc.prems(1) ow
  show ?case by (simp add: qc uq tot)
qed

lemma word_of_nat_max: "of_nat (2 ^ 256 - 1) = (- 1 :: uint256)"
  by (simp add: of_nat_diff)

lemma full_counter:
  "questCounter (run fresh (replicate (2 ^ 256 - 1) (owner_at 1000, quest1))) = - 1 \<and>
   userQuests (run fresh (replicate (2 ^ 256 - 1) (owner_at 1000, quest1))) = userQuests fresh"
proof -
  have "unat (questCounter fresh) + (2 ^ 256 - 1) < (2 :: nat) ^ 256"
    by (simp add: fresh_def)
  from run_creates [of "owner_at 1000" fresh 2000 "[''hold'']" "2 ^ 256 - 1"
      "''Hold''" "''Hold one token''" 50 5, folded quest1_def, OF _ _ _ this]
  show ?thesis
    by (simp add: word_of_nat_max owner_at_def fresh_def)
qed

lemmas eval_defs = transact_def createQuest_def completeQuestForUser_def setDailyClaimed_def
  checked_add_def example_defs scenario_def

lemma scenario_state:
  "questCounter (run fresh scenario) = 2 \<and>
   totalQuestsCompleted (run fresh scenario) 7 = 2 \<and>
   completed (userQuests (run fresh scenario) 7 1) \<and>
   completed (userQuests (run fresh scenario) 7 2) \<and>
   dailyClaims (run fresh scenario) 7 = \<lparr>lastClaimTime = 90000, claimed = True\<rparr> \<and>
   claimCooldown (run fresh scenario) = 86400"
  by (simp add: eval_defs)

lemma scenario_ids: "completed_ids (run fresh scenario) 7 = [1, 2]"
proof -
  have "[1..<Suc (unat (2 :: uint256))] = [1, 2]"
    by (simp add: upt_rec)
  then show ?thesis
    using scenario_state by (simp add: completed_ids_def ids_from_def)
qed

lemma scenario_times:
  "chronological (block_timestamp (owner_at 1000)) scenario \<and>
   last_time (block_timestamp (owner_at 1000)) scenario \<le> block_timestamp (backend_at 100000)"
  by (simp add: example_defs scenario_def)

lemma replicate_two: "replicate 2 x = [x, x]"
  by (simp add: numeral_2_eq_2)

section \<open>Creating quests\<close>

text \<open>
  Claim C6, as amended. \<open>createQuest\<close> called by the owner fails with
  \<open>InvalidSchedule\<close> when \<open>endDate <= block.timestamp\<close>, otherwise with
  \<open>InvalidQuest\<close> when \<open>requirements\<close> is empty, otherwise with an arithmetic
  panic when the quest counter is at its maximum, and otherwise succeeds: it stores under the
  next id a quest with that id, \<open>isActive = true\<close> and \<open>createdAt = block.timestamp\<close>
  and emits \<open>QuestCreated\<close> with the new id. The function has no return value: the new id
  reaches the caller through the event and the counter only.
\<close>

theorem C6_createQuest:
  "msg_sender e = owner s \<Longrightarrow>
     createQuest s e t d r rq m ed =
       (if ed \<le> block_timestamp e then Inl End_date_not_in_future
        else if rq = [] then Inl No_requirement
        else if questCounter s = - 1 then Inl Panic_arithmetic
        else Inr (s\<lparr>questCounter := questCounter s + 1,
                    quests := (quests s)(questCounter s + 1 :=
                      \<lparr>id_q = questCounter s + 1, title = t, description = d, reward = r,
                       requirements = rq, estimatedTimeMinutes = m, isActive = True,
                       createdAt = block_timestamp e, endDate = ed\<rparr>),
                    events := events s @ [QuestCreated (questCounter s + 1) t r ed]\<rparr>)) \<and>
     kind End_date_not_in_future = InvalidSchedule \<and> kind No_requirement = InvalidQuest \<and>
     (\<not> ed \<le> block_timestamp e \<and> rq \<noteq> [] \<and> questCounter s \<noteq> - 1 \<longrightarrow>
        returned s e (CreateQuest t d r rq m ed) = Inr [])"
  by (auto simp: createQuest_def checked_add_one returned_def not_less)

text \<open>The owner creating the quest of the examples, and two rejected variants of the call.\<close>

theorem C6_createQuest_witness:
  "createQuest fresh (owner_at 1000) ''Hold'' ''Hold one token'' 50 [''hold''] 5 2000
     = Inr with_quest \<and>
   createQuest fresh (owner_at 1000) ''Hold'' ''Hold one token'' 50 [''hold''] 5 1000
     = Inl End_date_not_in_future \<and>
   createQuest fresh (owner_at 1000) ''Hold'' ''Hold one token'' 50 [] 5 2000
     = Inl No_requirement"
  using C6_createQuest [of "owner_at 1000" fresh "''Hold''" "''Hold one token''" 50 "[''hold'']" 5 2000]
    C6_createQuest [of "owner_at 1000" fresh "''Hold''" "''Hold one token''" 50 "[''hold'']" 5 1000]
    C6_createQuest [of "owner_at 1000" fresh "''Hold''" "''Hold one token''" 50 "[]" 5 2000]
  by (simp add: example_defs)

text \<open>
  The claim as stated fails: the successful call that allocates id 1 returns no value. And
  a call by the owner with a valid schedule and a requirement does not succeed once
  \<open>2 ^ 256 - 1\<close> quests exist: the checked increment of the counter panics.
\<close>

theorem C6_createQuest_counterexample:
  "dispatch fresh (owner_at 1000) quest1 = Inr with_quest \<and>
   questCounter with_quest = 1 \<and>
   returned fresh (owner_at 1000) quest1 = Inr [] \<and>
   returned fresh (owner_at 1000) quest1 \<noteq> Inr [questCounter with_quest] \<and>
   dispatch (run fresh (replicate (2 ^ 256 - 1) (owner_at 1000, quest1))) (owner_at 1000) quest1
     = Inl Panic_arithmetic"
proof -
  let ?s = "run fresh (replicate (2 ^ 256 - 1) (owner_at 1000, quest1))"
  have "owner ?s = 1"
    using run_frame [of fresh "replicate (2 ^ 256 - 1) (owner_at 1000, quest1)"]
    by (simp add: fresh_def)
  then have "dispatch ?s (owner_at 1000) quest1 = Inl Panic_arithmetic"
    using full_counter by (simp add: createQuest_def checked_add_one owner_at_def quest1_def)
  moreover have "dispatch fresh (owner_at 1000) quest1 = Inr with_quest"
    by (simp add: createQuest_def checked_add_def example_defs)
  moreover have "returned fresh (owner_at 1000) quest1 = Inr []"
    by (simp add: createQuest_def checked_add_def returned_def example_defs)
  moreover have "questCounter with_quest = 1"
    by (simp add: with_quest_def)
  ultimately show ?thesis by simp
qed

section \<open>The view of a user\<close>

text \<open>
  Claim C8. In every storage reached from the constructor by transactions, the stored
  counter \<open>totalQuestsCompleted[user]\<close> is the number of quest ids between 1 and
  \<open>questCounter\<close> that are marked completed for the user. Whenever \<open>getUserDetails\<close>
  returns, its \<open>totalQuestsCompleted\<close> is the length of its \<open>completedQuestIds\<close>,
  whose elements are exactly those ids; and it does return unless the quest counter is at
  its maximum or the time is before the user's last claim.
\<close>

theorem C8_counter_matches_scan:
  assumes "constructor e0 b a c = Inr s0"
  shows "unat (totalQuestsCompleted (run s0 ts) u) =
           card {q. 0 < q \<and> q \<le> questCounter (run s0 ts) \<and>
                    completed (userQuests (run s0 ts) u q)} \<and>
         (\<forall>d. getUserDetails (run s0 ts) e u = Inr d \<longrightarrow>
            unat (totalQuestsCompleted_d d) = length (completedQuestIds d) \<and>
            set (completedQuestIds d) =
              {q. 0 < q \<and> q \<le> questCounter (run s0 ts) \<and>
                  completed (userQuests (run s0 ts) u q)}) \<and>
         (questCounter (run s0 ts) \<noteq> - 1 \<and>
          lastClaimTime (dailyClaims (run s0 ts) u) \<le> block_timestamp e \<longrightarrow>
            (\<exists>d. getUserDetails (run s0 ts) e u = Inr d))"
proof -
  let ?s = "run s0 ts"
  have ok: "ledger_ok ?s"
    using assms by (intro ledger_ok_run ledger_ok_constructor)
  have len: "length (completed_ids ?s u) = unat (totalQuestsCompleted ?s u)"
    using ok by (rule length_completed_ids)
  have set: "set (completed_ids ?s u)
      = {q. 0 < q \<and> q \<le> questCounter ?s \<and> completed (userQuests ?s u q)}"
    unfolding completed_ids_def by (rule set_ids_from_1)
  have "{q. 0 < q \<and> q \<le> questCounter ?s \<and> completed (userQuests ?s u q)}
      = {q. completed (userQuests ?s u q)}"
    using ok by (auto simp: ledger_ok_def)
  then have first: "unat (totalQuestsCompleted ?s u)
      = card {q. 0 < q \<and> q \<le> questCounter ?s \<and> completed (userQuests ?s u q)}"
    using ok by (simp add: ledger_ok_def)
  have second: "unat (totalQuestsCompleted_d d) = length (completedQuestIds d) \<and>
      set (completedQuestIds d)
        = {q. 0 < q \<and> q \<le> questCounter ?s \<and> completed (userQuests ?s u q)}"
    if "getUserDetails ?s e u = Inr d" for d
    using getUserDetails_Inr [OF ok that] len set by simp
  have third: "\<exists>d. getUserDetails ?s e u = Inr d"
    if "questCounter ?s \<noteq> - 1" "lastClaimTime (dailyClaims ?s u) \<le> block_timestamp e"
    using getUserDetails_ok [OF ok that] by blast
  show ?thesis
    using first second third by blast
qed

text \<open>User 7 after the scenario: two completed quests, and the view returns.\<close>

theorem C8_counter_matches_scan_witness:
  "unat (totalQuestsCompleted (run fresh scenario) 7) =
     card {q. 0 < q \<and> q \<le> questCounter (run fresh scenario) \<and>
              completed (userQuests (run fresh scenario) 7 q)} \<and>
   totalQuestsCompleted (run fresh scenario) 7 = 2 \<and>
   (\<exists>d. getUserDetails (run fresh scenario) (backend_at 100000) 7 = Inr d)"
  using C8_counter_matches_scan [OF constructor_fresh, of scenario 7 "backend_at 100000"]
    scenario_state
  by (simp add: backend_at_def)

text \<open>
  Claim C10. In every storage reached from the constructor, the array
  \<open>completedQuestIds\<close> that \<open>getUserDetails\<close> returns is strictly increasing, hence
  without duplicates: it is the list of completed ids in the order of the scan from 1 to
  the quest counter.
\<close>

theorem C10_ids_increasing:
  assumes "constructor e0 b a c = Inr s0"
    and "getUserDetails (run s0 ts) e u = Inr d"
  shows "sorted_wrt (<) (completedQuestIds d) \<and> distinct (completedQuestIds d) \<and>
         completedQuestIds d = completed_ids (run s0 ts) u"
proof -
  have ok: "ledger_ok (run s0 ts)"
    using assms(1) by (intro ledger_ok_run ledger_ok_constructor)
  have ids: "completedQuestIds d = completed_ids (run s0 ts) u"
    using getUserDetails_Inr [OF ok assms(2)] by simp
  have "sorted_wrt (<) (completed_ids (run s0 ts) u)"
    by (rule sorted_completed_ids)
  then show ?thesis
    using ids by (simp add: strict_sorted_iff)
qed

text \<open>
  User 7 completed quest 2 before quest 1; the view lists them as 1, 2.
\<close>

theorem C10_ids_increasing_witness:
  "getUserDetails (run fresh scenario) (backend_at 100000) 7 =
     Inr \<lparr>completedQuestIds = [1, 2], totalQuestsCompleted_d = 2,
          dailyClaimInfo = \<lparr>lastClaimTime = 90000, claimed = True\<rparr>,
          canClaimDaily = False, timeUntilNextClaim = 76400\<rparr> \<and>
   sorted_wrt (<) [1, 2 :: uint256]"
proof -
  have view: "getUserDetails (run fresh scenario) (backend_at 100000) 7 =
     Inr \<lparr>completedQuestIds = [1, 2], totalQuestsCompleted_d = 2,
          dailyClaimInfo = \<lparr>lastClaimTime = 90000, claimed = True\<rparr>,
          canClaimDaily = False, timeUntilNextClaim = 76400\<rparr>"
    using scenario_state
    by (simp add: getUserDetails_def getUserDetails_loop.simps checked_sub_def
          word_le_nat_alt backend_at_def replicate_two)
  show ?thesis
    using conjunct1 [OF C10_ids_increasing [OF constructor_fresh view]] view by simp
qed

text \<open>
  The view on a storage reached from the constructor by transactions with non-decreasing
  timestamps, at a time not before the last of them, while the quest counter is below its
  maximum.
\<close>

lemma view_of_run:
  assumes "constructor e0 b a c = Inr s0"
    and "chronological (block_timestamp e0) ts"
    and "last_time (block_timestamp e0) ts \<le> block_timestamp e"
    and "questCounter (run s0 ts) \<noteq> - 1"
  shows "getUserDetails (run s0 ts) e u =
           Inr \<lparr>completedQuestIds = completed_ids (run s0 ts) u,
                totalQuestsCompleted_d = totalQuestsCompleted (run s0 ts) u,
                dailyClaimInfo = dailyClaims (run s0 ts) u,
                canClaimDaily =
                  (lastClaimTime (dailyClaims (run s0 ts) u) = 0 \<or>
                   c \<le> block_timestamp e - lastClaimTime (dailyClaims (run s0 ts) u)),
                timeUntilNextClaim =
                  (if lastClaimTime (dailyClaims (run s0 ts) u) = 0 \<or>
                      c \<le> block_timestamp e - lastClaimTime (dailyClaims (run s0 ts) u)
                   then 0
                   else c - (block_timestamp e - lastClaimTime (dailyClaims (run s0 ts) u)))\<rparr> \<and>
         lastClaimTime (dailyClaims (run s0 ts) u) \<le> block_timestamp e \<and>
         ((\<forall>t\<in>set ts. \<not> concerns u (snd t)) \<longrightarrow>
            getUserDetails (run s0 ts) e u =
              Inr \<lparr>completedQuestIds = [], totalQuestsCompleted_d = 0,
                   dailyClaimInfo = \<lparr>lastClaimTime = 0, claimed = False\<rparr>,
                   canClaimDaily = True, timeUntilNextClaim = 0\<rparr>)"
proof -
  let ?s = "run s0 ts"
  have ok: "ledger_ok ?s"
    using assms(1) by (intro ledger_ok_run ledger_ok_constructor)
  have "claims_before (last_time (block_timestamp e0) ts) ?s"
    using claims_before_constructor [OF assms(1)] assms(2) by (rule claims_before_run)
  then have "claims_before (block_timestamp e) ?s"
    using assms(3) by (rule claims_before_mono)
  then have past: "lastClaimTime (dailyClaims ?s u) \<le> block_timestamp e"
    by (simp add: claims_before_def)
  have cd: "claimCooldown ?s = c"
    using run_frame [of s0 ts] constructor_Inr [OF assms(1)] by simp
  note view = getUserDetails_ok [OF ok assms(4) past, unfolded cd]
  have "getUserDetails ?s e u =
      Inr \<lparr>completedQuestIds = [], totalQuestsCompleted_d = 0,
           dailyClaimInfo = \<lparr>lastClaimTime = 0, claimed = False\<rparr>,
           canClaimDaily = True, timeUntilNextClaim = 0\<rparr>"
    if "\<forall>t\<in>set ts. \<not> concerns u (snd t)"
  proof -
    from run_unconcerned [OF that, of s0] constructor_Inr [OF assms(1)]
    have uq: "userQuests ?s u = (\<lambda>_. zero_UserProgress)"
      and tot: "totalQuestsCompleted ?s u = 0"
      and dc: "dailyClaims ?s u = zero_DailyClaim"
      by simp_all
    have "completed_ids ?s u = []"
      by (rule completed_ids_none) (simp add: uq zero_UserProgress_def)
    then show ?thesis
      using view by (simp add: tot dc zero_DailyClaim_def)
  qed
  then show ?thesis using view past by blast
qed

text \<open>A transaction raises the quest counter by at most one.\<close>

lemma counter_transact: "unat (questCounter (transact s t)) \<le> Suc (unat (questCounter s))"
proof (cases "snd t")
  case (CreateQuest a b c d e f)
  show ?thesis
    using transact_cases [of s t] CreateQuest
    by (auto dest!: createQuest_Inr simp: unat_plus1)
next
  case (CompleteQuestForUser a b)
  show ?thesis
    using transact_cases [of s t] CompleteQuestForUser
    by (auto dest!: completeQuestForUser_Inr)
next
  case (SetDailyClaimed a)
  show ?thesis
    using transact_cases [of s t] SetDailyClaimed
    by (auto dest!: setDailyClaimed_Inr)
qed

lemma counter_run: "unat (questCounter (run s ts)) \<le> unat (questCounter s) + length ts"
proof (induction ts arbitrary: s)
  case Nil
  then show ?case by simp
next
  case (Cons t ts)
  have "unat (questCounter (run (transact s t) ts))
      \<le> unat (questCounter (transact s t)) + length ts"
    by (rule Cons.IH)
  then show ?case
    using counter_transact [of s t] by simp
qed

text \<open>
  Claim C9. Take a storage reached from the constructor by transactions with
  non-decreasing block timestamps, and a current time not before the last of them; the
  chain has run fewer than \<open>2 ^ 256 - 1\<close> transactions. Then for every user
  \<open>getUserDetails\<close> does not fail and returns: the completed ids of the scan, the
  stored counter and claim record, and \<open>canClaimDaily = true\<close>,
  \<open>timeUntilNextClaim = 0\<close> when \<open>lastClaimTime\<close> is 0 or
  \<open>now - lastClaimTime >= cooldown\<close>, and otherwise \<open>canClaimDaily = false\<close>,
  \<open>timeUntilNextClaim = cooldown - (now - lastClaimTime)\<close>, where the subtraction
  does not wrap. A user that no transaction names gets the all-default view. The function
  is a view: it reads the storage and returns no new one.
\<close>

theorem C9_view:
  assumes "constructor e0 b a c = Inr s0"
    and "chronological (block_timestamp e0) ts"
    and "last_time (block_timestamp e0) ts \<le> block_timestamp e"
    and "length ts < 2 ^ 256 - 1"
  shows "getUserDetails (run s0 ts) e u =
           Inr \<lparr>completedQuestIds = completed_ids (run s0 ts) u,
                totalQuestsCompleted_d = totalQuestsCompleted (run s0 ts) u,
                dailyClaimInfo = dailyClaims (run s0 ts) u,
                canClaimDaily =
                  (lastClaimTime (dailyClaims (run s0 ts) u) = 0 \<or>
                   c \<le> block_timestamp e - lastClaimTime (dailyClaims (run s0 ts) u)),
                timeUntilNextClaim =
                  (if lastClaimTime (dailyClaims (run s0 ts) u) = 0 \<or>
                      c \<le> block_timestamp e - lastClaimTime (dailyClaims (run s0 ts) u)
                   then 0
                   else c - (block_timestamp e - lastClaimTime (dailyClaims (run s0 ts) u)))\<rparr> \<and>
         lastClaimTime (dailyClaims (run s0 ts) u) \<le> block_timestamp e \<and>
         ((\<forall>t\<in>set ts. \<not> concerns u (snd t)) \<longrightarrow>
            getUserDetails (run s0 ts) e u =
              Inr \<lparr>completedQuestIds = [], totalQuestsCompleted_d = 0,
                   dailyClaimInfo = \<lparr>lastClaimTime = 0, claimed = False\<rparr>,
                   canClaimDaily = True, timeUntilNextClaim = 0\<rparr>)"
proof -
  have "questCounter s0 = 0"
    using constructor_Inr [OF assms(1)] by simp
  then have "unat (questCounter (run s0 ts)) \<le> length ts"
    using counter_run [of s0 ts] by simp
  then have "unat (questCounter (run s0 ts)) + 1 < 2 ^ 256"
    using assms(4) by simp
  then have "questCounter (run s0 ts) \<noteq> - 1"
    using not_max_iff [of "questCounter (run s0 ts)"] by blast
  then show ?thesis
    by (rule view_of_run [OF assms(1-3)])
qed

text \<open>After the scenario, at time 100000: user 7, and user 8 whom no call names.\<close>

theorem C9_view_witness:
  "getUserDetails (run fresh scenario) (backend_at 100000) 7 =
     Inr \<lparr>completedQuestIds = [1, 2], totalQuestsCompleted_d = 2,
          dailyClaimInfo = \<lparr>lastClaimTime = 90000, claimed = True\<rparr>,
          canClaimDaily = False, timeUntilNextClaim = 76400\<rparr> \<and>
   getUserDetails (run fresh scenario) (backend_at 100000) 8 =
     Inr \<lparr>completedQuestIds = [], totalQuestsCompleted_d = 0,
          dailyClaimInfo = \<lparr>lastClaimTime = 0, claimed = False\<rparr>,
          canClaimDaily = True, timeUntilNextClaim = 0\<rparr>"
proof -
  have room: "length scenario < 2 ^ 256 - 1"
    by (simp add: scenario_def)
  have other: "\<forall>t\<in>set scenario. \<not> concerns 8 (snd t)"
    by (simp add: scenario_def quest1_def)
  have times: "chronological (block_timestamp (owner_at 1000)) scenario"
    "last_time (block_timestamp (owner_at 1000)) scenario \<le> block_timestamp (backend_at 100000)"
    using scenario_times by simp_all
  have known: "getUserDetails (run fresh scenario) (backend_at 100000) 7 =
     Inr \<lparr>completedQuestIds = [1, 2], totalQuestsCompleted_d = 2,
          dailyClaimInfo = \<lparr>lastClaimTime = 90000, claimed = True\<rparr>,
          canClaimDaily = False, timeUntilNextClaim = 76400\<rparr>"
    using conjunct1 [OF C9_view [OF constructor_fresh times room, of 7]]
      scenario_state scenario_ids
    by (simp add: backend_at_def)
  have unknown: "getUserDetails (run fresh scenario) (backend_at 100000) 8 =
     Inr \<lparr>completedQuestIds = [], totalQuestsCompleted_d = 0,
          dailyClaimInfo = \<lparr>lastClaimTime = 0, claimed = False\<rparr>,
          canClaimDaily = True, timeUntilNextClaim = 0\<rparr>"
    using conjunct2 [OF conjunct2 [OF C9_view [OF constructor_fresh times room, of 8]]] other
    by blast
  show ?thesis
    using known unknown by (rule conjI)
qed

end
